theory Spec2Isabelle
  imports Complex_Main "HOL-Library.Monad_Syntax"
begin

section \<open>Machine integers and arrays\<close>

text \<open>
  The narrow functions (\<open>sp_...\<close>) compute with C \<open>int\<close> locals and 32-bit elements,
  the wide functions (\<open>spamx_...\<close>) with \<open>size_t\<close>. Integer values are HOL integers;
  every arithmetic result is reduced to the range of the C type that holds it, and
  a value converted to \<open>size_t\<close> is reduced modulo \<open>2 ^ 64\<close>.
\<close>

definition s32 :: "int \<Rightarrow> int" where
  "s32 v = (v + 2 ^ 31) mod 2 ^ 32 - 2 ^ 31"

definition u64 :: "int \<Rightarrow> int" where
  "u64 v = v mod 2 ^ 64"

text \<open>The 64-bit signed type \<open>R_xlen_t\<close> of buffer offsets.\<close>

definition s64 :: "int \<Rightarrow> int" where
  "s64 v = (v + 2 ^ 63) mod 2 ^ 64 - 2 ^ 63"

datatype width = Narrow | Wide

fun wrap :: "width \<Rightarrow> int \<Rightarrow> int" where
  "wrap Narrow v = s32 v"
| "wrap Wide v = u64 v"

text \<open>
  Indexing a vector outside \<open>[0, length)\<close> is undefined behaviour in the source;
  the model returns \<open>None\<close> there, and so does every function that performs such an access.
\<close>

definition rd :: "'a list \<Rightarrow> int \<Rightarrow> 'a option" where
  "rd xs k = (if 0 \<le> k \<and> k < int (length xs) then Some (xs ! nat k) else None)"

definition wr :: "'a list \<Rightarrow> int \<Rightarrow> 'a \<Rightarrow> 'a list option" where
  "wr xs k v = (if 0 \<le> k \<and> k < int (length xs) then Some (xs[nat k := v]) else None)"

section \<open>Data model\<close>

text \<open>
  A host object is known to the kernel by its handle only: \<open>Null\<close>, or the address of a
  character vector of the host. Copying a handle does not copy the vector.
\<close>

datatype sexp = Null | Names nat

text \<open>
  The sparse matrix classes \<open>dgCMatrix\<close> and \<open>spamx64\<close>: slots \<open>i\<close> (row indices),
  \<open>p\<close> (column offsets), \<open>x\<close> (values), \<open>Dim\<close> and \<open>Dimnames\<close>.
\<close>

record csc =
  slot_i :: "int list"
  slot_p :: "int list"
  slot_x :: "real list"
  Dim :: "int list"
  Dimnames :: "sexp list"

text \<open>
  Modelled from the spec: the constructor \<open>dgCMatrix(nrow, ncol, nelem)\<close> (and that of
  \<open>spamx64\<close>), declared in \<open>rcpp_data_utils.hpp\<close>, which is not among the sources.
  The spec gives the shape: an offset vector of length \<open>ncol + 1\<close>, row indices and
  values of length \<open>nelem\<close>, and the two dimensions.
\<close>

definition new_csc :: "int \<Rightarrow> int \<Rightarrow> int \<Rightarrow> csc" where
  "new_csc nr nc ne =
     \<lparr>slot_i = replicate (nat ne) 0, slot_p = replicate (nat (nc + 1)) 0,
      slot_x = replicate (nat ne) 0, Dim = [nr, nc], Dimnames = [Null, Null]\<rparr>"

text \<open>
  The dense result, \<open>Rcpp::NumericMatrix\<close>: a zero-filled column-major buffer of
  \<open>nrow * ncol\<close> reals with its shape. Its constructor takes two \<open>int\<close> dimensions, so the
  \<open>size_t\<close> arguments of the source are converted. \<open>dense(r, c)\<close> converts both indices
  to \<open>int\<close> and addresses the buffer at \<open>r + nrow * c\<close>, computed in \<open>R_xlen_t\<close>; the access
  itself is unchecked in the source and is \<open>None\<close> here outside the buffer. The attribute
  \<open>dimnames\<close> is absent on construction.
\<close>

record dense =
  d_nrow :: int
  d_ncol :: int
  d_data :: "real list"
  d_dimnames :: "sexp list option"

definition new_dense :: "int \<Rightarrow> int \<Rightarrow> dense" where
  "new_dense nr nc =
     \<lparr>d_nrow = s32 nr, d_ncol = s32 nc,
      d_data = replicate (nat (s64 (s32 nr * s32 nc))) 0, d_dimnames = None\<rparr>"

definition dense_offset :: "dense \<Rightarrow> int \<Rightarrow> int \<Rightarrow> int" where
  "dense_offset D r c = s64 (s32 r + s64 (d_nrow D * s32 c))"

definition dense_set :: "dense \<Rightarrow> int \<Rightarrow> int \<Rightarrow> real \<Rightarrow> dense option" where
  "dense_set D r c v =
     do { buf \<leftarrow> wr (d_data D) (dense_offset D r c) v; Some (D\<lparr>d_data := buf\<rparr>) }"

definition dense_cell :: "dense \<Rightarrow> int \<Rightarrow> int \<Rightarrow> real" where
  "dense_cell D r c = d_data D ! nat (dense_offset D r c)"

section \<open>Transpose\<close>

text \<open>Step 1, first loop: \<open>for (r = 0; r <= nrow; ++r) out.p[r] = 0;\<close>\<close>

partial_function (option) zero_loop :: "width \<Rightarrow> int \<Rightarrow> int \<Rightarrow> int list \<Rightarrow> int list option" where
  "zero_loop w nrow r outp =
     (if r \<le> nrow then
        do { outp' \<leftarrow> wr outp r 0;
             zero_loop w nrow (wrap w (r + 1)) outp' }
      else Some outp)"

text \<open>Step 1, second loop: \<open>for (e = 0; e < nelem; ++e) ++out.p[ sp_matrix.i[e] + 1 ];\<close>\<close>

partial_function (option) count_loop ::
  "width \<Rightarrow> int list \<Rightarrow> int \<Rightarrow> int \<Rightarrow> int list \<Rightarrow> int list option" where
  "count_loop w mi nelem e outp =
     (if e < nelem then
        do { rid \<leftarrow> rd mi e;
             cnt \<leftarrow> rd outp (wrap w (rid + 1));
             outp' \<leftarrow> wr outp (wrap w (rid + 1)) (wrap w (cnt + 1));
             count_loop w mi nelem (wrap w (e + 1)) outp' }
      else Some outp)"

text \<open>Step 2: \<open>for (r = 1; r <= nrow; ++r) out.p[r] += out.p[r - 1];\<close>\<close>

partial_function (option) prefix_loop :: "width \<Rightarrow> int \<Rightarrow> int \<Rightarrow> int list \<Rightarrow> int list option" where
  "prefix_loop w nrow r outp =
     (if r \<le> nrow then
        do { a \<leftarrow> rd outp r;
             b \<leftarrow> rd outp (wrap w (r - 1));
             outp' \<leftarrow> wr outp r (wrap w (a + b));
             prefix_loop w nrow (wrap w (r + 1)) outp' }
      else Some outp)"

text \<open>
  Step 3, the inner loop \<open>for (; e >= sp_matrix.p[cid+1]; ++cid);\<close> with \<open>e\<close> a
  \<open>size_t\<close>: the offset read is converted to \<open>size_t\<close> for the comparison.
\<close>

partial_function (option) find_col :: "width \<Rightarrow> int list \<Rightarrow> int \<Rightarrow> int \<Rightarrow> int option" where
  "find_col w mp e cid =
     do { b \<leftarrow> rd mp (wrap w (cid + 1));
          if e \<ge> u64 b then find_col w mp e (wrap w (cid + 1)) else Some cid }"

text \<open>Step 3, the scatter: \<open>for (size_t e = 0; e < nelem; ++e) { ... }\<close>\<close>

partial_function (option) scatter_loop ::
  "width \<Rightarrow> csc \<Rightarrow> int \<Rightarrow> int \<Rightarrow> int \<Rightarrow> csc \<Rightarrow> csc option" where
  "scatter_loop w M nelem e cid out =
     (if e < u64 nelem then
        do { rid \<leftarrow> rd (slot_i M) e;
             val \<leftarrow> rd (slot_x M) e;
             cid' \<leftarrow> find_col w (slot_p M) e cid;
             pos \<leftarrow> rd (slot_p out) rid;
             outx \<leftarrow> wr (slot_x out) pos val;
             outi \<leftarrow> wr (slot_i out) pos cid';
             cur \<leftarrow> rd (slot_p out) rid;
             outp \<leftarrow> wr (slot_p out) rid (wrap w (cur + 1));
             scatter_loop w M nelem (u64 (e + 1)) cid'
               (out\<lparr>slot_x := outx, slot_i := outi, slot_p := outp\<rparr>) }
      else Some out)"

text \<open>Step 4: \<open>for (size_t r = 1; r <= nrow; ++r) std::swap(off, out.p[r]);\<close>\<close>

partial_function (option) shift_loop :: "int \<Rightarrow> int \<Rightarrow> int \<Rightarrow> int list \<Rightarrow> int list option" where
  "shift_loop nrow r off outp =
     (if r \<le> u64 nrow then
        do { t \<leftarrow> rd outp r;
             outp' \<leftarrow> wr outp r off;
             shift_loop nrow (u64 (r + 1)) t outp' }
      else Some outp)"

declare zero_loop.simps [code] count_loop.simps [code] prefix_loop.simps [code]
  find_col.simps [code] scatter_loop.simps [code] shift_loop.simps [code]

text \<open>
  The body shared by \<open>sp_transpose\<close> (lines 169-252) and \<open>spamx_transpose\<close>
  (lines 265-348), which differ in the integer type of their locals only.
\<close>

definition csc_transpose :: "width \<Rightarrow> csc \<Rightarrow> csc option" where
  "csc_transpose w M =
     do { nrow \<leftarrow> rd (Dim M) 0;
          ncol \<leftarrow> rd (Dim M) 1;
          nelem \<leftarrow> rd (slot_p M) ncol;
          let out = new_csc ncol nrow nelem;
          dn1 \<leftarrow> rd (Dimnames M) 1;
          dimns \<leftarrow> wr [Null, Null] 0 dn1;
          dn0 \<leftarrow> rd (Dimnames M) 0;
          dimns \<leftarrow> wr dimns 1 dn0;
          let out = out\<lparr>Dimnames := dimns\<rparr>;
          outp \<leftarrow> zero_loop w nrow 0 (slot_p out);
          outp \<leftarrow> count_loop w (slot_i M) nelem 0 outp;
          outp \<leftarrow> prefix_loop w nrow 1 outp;
          out \<leftarrow> scatter_loop w M nelem 0 0 (out\<lparr>slot_p := outp\<rparr>);
          off \<leftarrow> rd (slot_p out) 0;
          outp \<leftarrow> wr (slot_p out) 0 0;
          outp \<leftarrow> shift_loop nrow 1 off outp;
          Some (out\<lparr>slot_p := outp\<rparr>) }"

definition sp_transpose :: "csc \<Rightarrow> csc option" where
  "sp_transpose M = csc_transpose Narrow M"

definition spamx_transpose :: "csc \<Rightarrow> csc option" where
  "spamx_transpose M = csc_transpose Wide M"

section \<open>Densify\<close>

text \<open>
  The column tracking of the four densify functions:
  \<open>if (e == c_end) { ++c; c_end = sp_matrix.p[c + 1]; }\<close>, all locals \<open>size_t\<close>.
\<close>

definition next_col :: "int list \<Rightarrow> int \<Rightarrow> int \<Rightarrow> int \<Rightarrow> (int \<times> int) option" where
  "next_col mp e c c_end =
     (if e = c_end then
        do { b \<leftarrow> rd mp (u64 (u64 (c + 1) + 1));
             Some (u64 (c + 1), u64 b) }
      else Some (c, c_end))"

text \<open>The loop of \<open>sp_to_dense\<close> and \<open>spamx_to_dense\<close>, writing \<open>dense(i[e], c)\<close>.\<close>

partial_function (option) to_dense_loop ::
  "csc \<Rightarrow> int \<Rightarrow> int \<Rightarrow> int \<Rightarrow> int \<Rightarrow> dense \<Rightarrow> dense option" where
  "to_dense_loop M nelem e c c_end D =
     (if e < nelem then
        do { cc \<leftarrow> next_col (slot_p M) e c c_end;
             rid \<leftarrow> rd (slot_i M) e;
             val \<leftarrow> rd (slot_x M) e;
             D' \<leftarrow> dense_set D (u64 rid) (fst cc) val;
             to_dense_loop M nelem (u64 (e + 1)) (fst cc) (snd cc) D' }
      else Some D)"

text \<open>The loop of the transposed variants, writing \<open>dense(c, i[e])\<close>.\<close>

partial_function (option) to_dense_transposed_loop ::
  "csc \<Rightarrow> int \<Rightarrow> int \<Rightarrow> int \<Rightarrow> int \<Rightarrow> dense \<Rightarrow> dense option" where
  "to_dense_transposed_loop M nelem e c c_end D =
     (if e < nelem then
        do { cc \<leftarrow> next_col (slot_p M) e c c_end;
             rid \<leftarrow> rd (slot_i M) e;
             val \<leftarrow> rd (slot_x M) e;
             D' \<leftarrow> dense_set D (fst cc) (u64 rid) val;
             to_dense_transposed_loop M nelem (u64 (e + 1)) (fst cc) (snd cc) D' }
      else Some D)"

declare to_dense_loop.simps [code] to_dense_transposed_loop.simps [code]

definition sp_to_dense :: "csc \<Rightarrow> dense option" where
  "sp_to_dense M =
     do { nrow \<leftarrow> rd (Dim M) 0;
          ncol \<leftarrow> rd (Dim M) 1;
          nelem \<leftarrow> rd (slot_p M) (u64 ncol);
          c_end \<leftarrow> rd (slot_p M) 1;
          to_dense_loop M (u64 nelem) 0 0 (u64 c_end) (new_dense (u64 nrow) (u64 ncol)) }"

definition spamx_to_dense :: "csc \<Rightarrow> dense option" where
  "spamx_to_dense M =
     do { nrow \<leftarrow> rd (Dim M) 0;
          ncol \<leftarrow> rd (Dim M) 1;
          nelem \<leftarrow> rd (slot_p M) (u64 ncol);
          c_end \<leftarrow> rd (slot_p M) 1;
          to_dense_loop M (u64 nelem) 0 0 (u64 c_end) (new_dense (u64 nrow) (u64 ncol)) }"

definition sp_to_dense_transposed :: "csc \<Rightarrow> dense option" where
  "sp_to_dense_transposed M =
     do { nrow \<leftarrow> rd (Dim M) 0;
          ncol \<leftarrow> rd (Dim M) 1;
          nelem \<leftarrow> rd (slot_p M) (u64 ncol);
          c_end \<leftarrow> rd (slot_p M) 1;
          to_dense_transposed_loop M (u64 nelem) 0 0 (u64 c_end)
            (new_dense (u64 ncol) (u64 nrow)) }"

definition spamx_to_dense_transposed :: "csc \<Rightarrow> dense option" where
  "spamx_to_dense_transposed M =
     do { nrow \<leftarrow> rd (Dim M) 0;
          ncol \<leftarrow> rd (Dim M) 1;
          nelem \<leftarrow> rd (slot_p M) (u64 ncol);
          c_end \<leftarrow> rd (slot_p M) 1;
          to_dense_transposed_loop M (u64 nelem) 0 0 (u64 c_end)
            (new_dense (u64 ncol) (u64 nrow)) }"

section \<open>The CSC data model of the specification\<close>

definition nrows :: "csc \<Rightarrow> int" where
  "nrows M = Dim M ! 0"

definition ncols :: "csc \<Rightarrow> int" where
  "ncols M = Dim M ! 1"

text \<open>The number of stored entries, as the source reads it: \<open>p[ncol]\<close>.\<close>

definition nnz :: "csc \<Rightarrow> int" where
  "nnz M = slot_p M ! nat (ncols M)"

text \<open>The row indices stored for column \<open>c\<close>: the slice \<open>[p[c], p[c+1])\<close> of slot \<open>i\<close>.\<close>

definition col_rows :: "csc \<Rightarrow> nat \<Rightarrow> int list" where
  "col_rows M c =
     take (nat (slot_p M ! Suc c) - nat (slot_p M ! c)) (drop (nat (slot_p M ! c)) (slot_i M))"

text \<open>
  The invariants of section 3 of the specification: the shape, the offsets
  (\<open>p[0] = 0\<close>, non-decreasing, \<open>p[ncol]\<close> the number of stored entries), the parallel
  arrays, and row indices in \<open>[0, nrow)\<close>.
\<close>

definition csc_wf :: "csc \<Rightarrow> bool" where
  "csc_wf M \<longleftrightarrow>
     length (Dim M) = 2 \<and> 0 \<le> nrows M \<and> 0 \<le> ncols M \<and> length (Dimnames M) = 2 \<and>
     length (slot_p M) = nat (ncols M) + 1 \<and> slot_p M ! 0 = 0 \<and> sorted (slot_p M) \<and>
     last (slot_p M) = int (length (slot_i M)) \<and> length (slot_x M) = length (slot_i M) \<and>
     (\<forall>r \<in> set (slot_i M). 0 \<le> r \<and> r < nrows M)"

text \<open>Canonical form: within each column the row indices are strictly increasing.\<close>

definition canonical :: "csc \<Rightarrow> bool" where
  "canonical M \<longleftrightarrow>
     csc_wf M \<and> (\<forall>c \<in> set [0..<nat (ncols M)]. sorted_wrt (<) (col_rows M c))"

text \<open>
  The range of the index type: \<open>INT_MAX\<close> for the narrow functions, \<open>SIZE_MAX\<close> for the
  wide ones. A matrix fits when its number of stored entries is representable and so
  is one more than each dimension (the loops count up to \<open>nrow + 1\<close>).
\<close>

fun max_index :: "width \<Rightarrow> int" where
  "max_index Narrow = 2 ^ 31 - 1"
| "max_index Wide = 2 ^ 64 - 1"


text \<open>
  What one transpose needs of the index type: the number of columns and of stored entries
  are representable, and the number of rows is below the largest value, since the loops
  over the offsets of the result run while \<open>r <= nrow\<close>.
\<close>

definition in_range :: "width \<Rightarrow> csc \<Rightarrow> bool" where
  "in_range w M \<longleftrightarrow>
     nrows M < max_index w \<and> ncols M \<le> max_index w \<and> int (length (slot_i M)) \<le> max_index w"

text \<open>The stored entries as triples (row, column, value), in storage order.\<close>

definition entries :: "csc \<Rightarrow> (int \<times> int \<times> real) list" where
  "entries M =
     concat (map (\<lambda>c. map (\<lambda>e. (slot_i M ! e, int c, slot_x M ! e))
                          [nat (slot_p M ! c) ..< nat (slot_p M ! Suc c)])
                 [0..<nat (ncols M)])"

section \<open>Example matrices\<close>

text \<open>The 3 x 2 matrix of section 8 of the specification.\<close>

definition M_spec :: csc where
  "M_spec = \<lparr>slot_i = [0, 2, 1], slot_p = [0, 2, 3], slot_x = [1, 2, 3], Dim = [3, 2],
             Dimnames = [Names 0, Names 1]\<rparr>"

text \<open>Its transpose, as section 8 of the specification expects it.\<close>

definition T_spec :: csc where
  "T_spec = \<lparr>slot_i = [0, 1, 0], slot_p = [0, 1, 2, 3], slot_x = [1, 3, 2], Dim = [2, 3],
             Dimnames = [Names 1, Names 0]\<rparr>"

text \<open>A 1 x 3 matrix whose middle column is empty: entries (0, 0, 1) and (0, 2, 2).\<close>

definition M_gap :: csc where
  "M_gap = \<lparr>slot_i = [0, 0], slot_p = [0, 1, 1, 2], slot_x = [1, 2], Dim = [1, 3],
            Dimnames = [Null, Null]\<rparr>"

text \<open>
  An empty matrix with \<open>INT_MAX\<close> rows and no column: every dimension, offset and count
  is a 32-bit count.
\<close>

definition M_big :: csc where
  "M_big = \<lparr>slot_i = [], slot_p = [0], slot_x = [], Dim = [2147483647, 0],
            Dimnames = [Null, Null]\<rparr>"

text \<open>What the wide transpose returns for it: 2147483648 offsets, all zero.\<close>

definition T_big :: csc where
  "T_big = \<lparr>slot_i = [], slot_p = replicate 2147483648 0, slot_x = [], Dim = [0, 2147483647],
            Dimnames = [Null, Null]\<rparr>"

text \<open>The 0 x 0 matrix: no column, hence an offset vector of length one.\<close>

definition M_empty :: csc where
  "M_empty = \<lparr>slot_i = [], slot_p = [0], slot_x = [], Dim = [0, 0], Dimnames = [Null, Null]\<rparr>"
section \<open>Labels in the host\<close>







section \<open>Counting and placement\<close>

text \<open>\<open>cnt Q m\<close>: how many positions below \<open>m\<close> satisfy \<open>Q\<close>.\<close>

definition cnt :: "(nat \<Rightarrow> bool) \<Rightarrow> nat \<Rightarrow> nat" where
  "cnt Q m = length (filter Q [0..<m])"

text \<open>
  For the row indices \<open>I\<close> of a matrix: \<open>rowcnt I r e\<close> is the number of entries of row \<open>r\<close>
  among the first \<open>e\<close>; \<open>start I r\<close> is the number of entries in rows below \<open>r\<close>, the offset
  of the transposed column \<open>r\<close>; \<open>pos I e\<close> is the slot the scatter gives entry \<open>e\<close>.
\<close>

definition rowcnt :: "int list \<Rightarrow> int \<Rightarrow> nat \<Rightarrow> nat" where
  "rowcnt I r e = cnt (\<lambda>e'. I ! e' = r) e"

definition start :: "int list \<Rightarrow> int \<Rightarrow> nat" where
  "start I r = cnt (\<lambda>e'. I ! e' < r) (length I)"

definition pos :: "int list \<Rightarrow> nat \<Rightarrow> nat" where
  "pos I e = start I (I ! e) + rowcnt I (I ! e) e"

text \<open>Entry \<open>e\<close> lies in column \<open>c\<close> of a matrix with offsets \<open>P\<close>.\<close>

definition in_col :: "int list \<Rightarrow> nat \<Rightarrow> nat \<Rightarrow> bool" where
  "in_col P c e \<longleftrightarrow> P ! c \<le> int e \<and> int e < P ! Suc c"

text \<open>
  The invariant of the scatter loop before entry \<open>e\<close>: each offset is a write cursor, the
  entries below \<open>e\<close> are placed, and every column below \<open>cid\<close> ends at or before \<open>e\<close>.
\<close>

definition scatter_inv :: "csc \<Rightarrow> nat \<Rightarrow> nat \<Rightarrow> nat \<Rightarrow> nat \<Rightarrow> csc \<Rightarrow> bool" where
  "scatter_inv M nr nc e cid out \<longleftrightarrow>
     length (slot_p out) = Suc nr \<and> length (slot_i out) = length (slot_i M) \<and>
     length (slot_x out) = length (slot_i M) \<and>
     (\<forall>k<nr. slot_p out ! k = int (start (slot_i M) (int k) + rowcnt (slot_i M) (int k) e)) \<and>
     (\<forall>e'<e. slot_x out ! pos (slot_i M) e' = slot_x M ! e' \<and>
        (\<forall>c<nc. in_col (slot_p M) c e' \<longrightarrow> slot_i out ! pos (slot_i M) e' = int c)) \<and>
     (\<forall>c'<cid. slot_p M ! Suc c' \<le> int e)"

text \<open>What the transpose returns for \<open>M\<close>, slot by slot.\<close>

definition transposed_of :: "csc \<Rightarrow> csc \<Rightarrow> bool" where
  "transposed_of M T \<longleftrightarrow>
     Dim T = [ncols M, nrows M] \<and> Dimnames T = [Dimnames M ! 1, Dimnames M ! 0] \<and>
     length (slot_p T) = Suc (nat (nrows M)) \<and>
     (\<forall>r\<le>nat (nrows M). slot_p T ! r = int (start (slot_i M) (int r))) \<and>
     length (slot_i T) = length (slot_i M) \<and> length (slot_x T) = length (slot_i M) \<and>
     (\<forall>e<length (slot_i M). slot_x T ! pos (slot_i M) e = slot_x M ! e \<and>
        (\<forall>c<nat (ncols M). in_col (slot_p M) c e \<longrightarrow> slot_i T ! pos (slot_i M) e = int c))"

section \<open>The loops of the transpose\<close>

lemma s32_id: "- (2 ^ 31) \<le> v \<Longrightarrow> v < 2 ^ 31 \<Longrightarrow> s32 v = v"
  unfolding s32_def by (simp add: mod_pos_pos_trivial)

lemma u64_id: "0 \<le> v \<Longrightarrow> v < 2 ^ 64 \<Longrightarrow> u64 v = v"
  unfolding u64_def by (simp add: mod_pos_pos_trivial)

lemma wrap_id: "0 \<le> v \<Longrightarrow> v \<le> max_index w \<Longrightarrow> wrap w v = v"
  by (cases w) (simp_all add: s32_id u64_id)

lemma u64_id_max: "0 \<le> v \<Longrightarrow> v \<le> max_index w \<Longrightarrow> u64 v = v"
  by (cases w) (simp_all add: u64_id)

lemma rd_nat: "n < length xs \<Longrightarrow> rd xs (int n) = Some (xs ! n)"
  by (simp add: rd_def)

lemma wr_nat: "n < length xs \<Longrightarrow> wr xs (int n) v = Some (xs[n := v])"
  by (simp add: wr_def)

lemma cnt_0 [simp]: "cnt Q 0 = 0"
  by (simp add: cnt_def)

lemma cnt_Suc [simp]: "cnt Q (Suc m) = (if Q m then Suc (cnt Q m) else cnt Q m)"
  by (simp add: cnt_def)

lemma cnt_le: "cnt Q m \<le> m"
  by (induction m) auto

lemma cnt_mono: "m \<le> m' \<Longrightarrow> cnt Q m \<le> cnt Q m'"
  by (induction m' arbitrary: m) (auto simp: le_Suc_eq)

lemma cnt_less: "Q e \<Longrightarrow> e < m \<Longrightarrow> cnt Q e < cnt Q m"
  using cnt_mono [of "Suc e" m Q] by simp

lemma cnt_cong: "(\<And>e. e < m \<Longrightarrow> Q e = R e) \<Longrightarrow> cnt Q m = cnt R m"
  by (induction m) auto

lemma cnt_imp: "(\<And>e. e < m \<Longrightarrow> Q e \<Longrightarrow> R e) \<Longrightarrow> cnt Q m \<le> cnt R m"
  by (induction m) auto


lemma cnt_none: "(\<And>e. e < m \<Longrightarrow> \<not> Q e) \<Longrightarrow> cnt Q m = 0"
  by (induction m) auto

lemma cnt_disj: "(\<And>e. e < m \<Longrightarrow> \<not> (Q e \<and> R e)) \<Longrightarrow> cnt (\<lambda>e. Q e \<or> R e) m = cnt Q m + cnt R m"
  by (induction m) auto


lemma zero_loop_correct:
  assumes "length outp = Suc nr" "int nr < max_index w" "r \<le> Suc nr" "\<forall>k<r. outp ! k = 0"
  shows "\<exists>outp'. zero_loop w (int nr) (int r) outp = Some outp' \<and> length outp' = Suc nr \<and>
           (\<forall>k\<le>nr. outp' ! k = 0)"
  using assms
proof (induction "Suc nr - r" arbitrary: r outp)
  case 0
  then have "r = Suc nr" by simp
  with 0 show ?case
    by (subst zero_loop.simps) (simp add: less_Suc_eq_le)
next
  case (Suc d)
  then have r: "r \<le> nr" by simp
  have w: "wrap w (int r + 1) = int (Suc r)"
    using r Suc.prems(2) by (simp add: wrap_id)
  have z: "\<forall>k<Suc r. outp[r := 0] ! k = 0"
  proof (intro allI impI)
    fix k assume "k < Suc r"
    then show "outp[r := 0] ! k = 0"
      using Suc.prems(1,4) r by (cases "k = r") simp_all
  qed
  have "\<exists>outp'. zero_loop w (int nr) (int (Suc r)) (outp[r := 0]) = Some outp' \<and>
          length outp' = Suc nr \<and> (\<forall>k\<le>nr. outp' ! k = 0)"
    using Suc.hyps(2) Suc.prems(1,2) r z
    by (intro Suc.hyps(1)) simp_all
  then show ?case
    using r Suc.prems(1) by (subst zero_loop.simps) (simp add: wr_nat w)
qed

lemma rowcnt_Suc: "rowcnt I r (Suc e) = (if I ! e = r then Suc (rowcnt I r e) else rowcnt I r e)"
  by (simp add: rowcnt_def)

lemma rowcnt_le: "rowcnt I r e \<le> e"
  by (simp add: rowcnt_def cnt_le)

lemma start_le: "start I r \<le> length I"
  by (simp add: start_def cnt_le)

lemma start_Suc: "start I (r + 1) = start I r + rowcnt I r (length I)"
proof -
  have "cnt (\<lambda>e'. I ! e' < r + 1) (length I) = cnt (\<lambda>e'. I ! e' < r \<or> I ! e' = r) (length I)"
    by (rule cnt_cong) auto
  also have "\<dots> = cnt (\<lambda>e'. I ! e' < r) (length I) + cnt (\<lambda>e'. I ! e' = r) (length I)"
    by (rule cnt_disj) auto
  finally show ?thesis by (simp add: start_def rowcnt_def)
qed

lemma start_0: "\<forall>e<length I. 0 \<le> I ! e \<Longrightarrow> start I 0 = 0"
  unfolding start_def by (rule cnt_none) auto


lemma start_mono: "r \<le> r' \<Longrightarrow> start I r \<le> start I r'"
  unfolding start_def by (rule cnt_imp) auto

lemma count_loop_correct:
  assumes len: "length outp = Suc nr" and n: "int (length I) \<le> max_index w"
    and nr: "int nr < max_index w"
    and rows: "\<forall>e<length I. 0 \<le> I ! e \<and> I ! e < int nr"
    and e: "e \<le> length I"
    and inv: "\<forall>k\<le>nr. outp ! k = (if k = 0 then 0 else int (rowcnt I (int k - 1) e))"
  shows "\<exists>outp'. count_loop w I (int (length I)) (int e) outp = Some outp' \<and>
           length outp' = Suc nr \<and>
           (\<forall>k\<le>nr. outp' ! k = (if k = 0 then 0 else int (rowcnt I (int k - 1) (length I))))"
  using len e inv
proof (induction "length I - e" arbitrary: e outp)
  case 0
  then have "e = length I" by simp
  with 0 show ?case
    by (subst count_loop.simps) simp
next
  case (Suc d)
  then have e: "e < length I" by simp
  define kr where "kr = nat (I ! e)"
  have kr: "I ! e = int kr" "kr < nr"
    using rows e by (auto simp: kr_def)
  have w1: "wrap w (int kr + 1) = int (Suc kr)"
    using kr nr by (simp add: wrap_id)
  have cur: "outp ! Suc kr = int (rowcnt I (int kr) e)"
    using Suc.prems(3) kr by simp
  have "int (rowcnt I (int kr) e) + 1 \<le> max_index w"
    using rowcnt_le [of I "int kr" e] e n by linarith
  then have w2: "wrap w (int (rowcnt I (int kr) e) + 1) = int (Suc (rowcnt I (int kr) e))"
    by (simp add: wrap_id)
  have w3: "wrap w (int e + 1) = int (Suc e)"
    using e n by (simp add: wrap_id)
  let ?outp = "outp[Suc kr := int (Suc (rowcnt I (int kr) e))]"
  have inv': "\<forall>k\<le>nr. ?outp ! k = (if k = 0 then 0 else int (rowcnt I (int k - 1) (Suc e)))"
  proof (intro allI impI)
    fix k assume k: "k \<le> nr"
    show "?outp ! k = (if k = 0 then 0 else int (rowcnt I (int k - 1) (Suc e)))"
    proof (cases "k = Suc kr")
      case True
      then show ?thesis using Suc.prems(1) kr by (simp add: rowcnt_Suc)
    next
      case False
      then have "int k - 1 \<noteq> int kr" by linarith
      then show ?thesis using False Suc.prems(3) k kr by (simp add: rowcnt_Suc)
    qed
  qed
  have "\<exists>outp'. count_loop w I (int (length I)) (int (Suc e)) ?outp = Some outp' \<and>
           length outp' = Suc nr \<and>
           (\<forall>k\<le>nr. outp' ! k = (if k = 0 then 0 else int (rowcnt I (int k - 1) (length I))))"
    using Suc.hyps(2) Suc.prems(1) e inv'
    by (intro Suc.hyps(1)) simp_all
  then have ih: "\<exists>outp'. count_loop w I (int (length I)) (int (Suc e)) ?outp = Some outp' \<and>
           length outp' = Suc nr \<and>
           (\<forall>k\<le>nr. outp' ! k = (if k = 0 then 0 else int (rowcnt I (int k - 1) (length I))))" .
  have ce: "int e < int (length I)"
    using e by simp
  have rd_i: "rd I (int e) = Some (int kr)"
    unfolding kr(1) [symmetric] using e by (intro rd_nat)
  have rd_c: "rd outp (wrap w (int kr + 1)) = Some (int (rowcnt I (int kr) e))"
    unfolding w1 cur [symmetric] using kr Suc.prems(1) by (intro rd_nat) simp
  have wr_c: "wr outp (wrap w (int kr + 1)) (wrap w (int (rowcnt I (int kr) e) + 1)) = Some ?outp"
    unfolding w1 w2 using kr Suc.prems(1) by (intro wr_nat) simp
  have step: "count_loop w I (int (length I)) (int e) outp =
      count_loop w I (int (length I)) (int (Suc e)) ?outp"
    by (subst count_loop.simps) (simp only: ce if_True rd_i rd_c wr_c w3 Option.bind.simps)
  show ?case
    unfolding step by (rule ih)
qed

lemma prefix_loop_correct:
  assumes len: "length outp = Suc nr" and n: "int (length I) \<le> max_index w"
    and nr: "int nr < max_index w"
    and r: "1 \<le> r" "r \<le> Suc nr"
    and inv: "\<forall>k\<le>nr. outp ! k =
        (if k < r then int (start I (int k)) else int (rowcnt I (int k - 1) (length I)))"
  shows "\<exists>outp'. prefix_loop w (int nr) (int r) outp = Some outp' \<and>
           length outp' = Suc nr \<and> (\<forall>k\<le>nr. outp' ! k = int (start I (int k)))"
  using len r inv
proof (induction "Suc nr - r" arbitrary: r outp)
  case 0
  then have "r = Suc nr" by simp
  with 0 show ?case
    by (subst prefix_loop.simps) (simp add: less_Suc_eq_le)
next
  case (Suc d)
  then have r: "r \<le> nr" "1 \<le> r" by simp_all
  have a: "outp ! r = int (rowcnt I (int r - 1) (length I))"
    using Suc.prems(4) r by simp
  have b: "outp ! (r - 1) = int (start I (int r - 1))"
    using Suc.prems(4) r by (simp add: of_nat_diff)
  have s: "start I (int r) = start I (int r - 1) + rowcnt I (int r - 1) (length I)"
    using start_Suc [of I "int r - 1"] by simp
  have w1: "wrap w (int r - 1) = int (r - 1)"
    using r nr by (simp add: wrap_id of_nat_diff)
  have "int (start I (int r)) \<le> max_index w"
    using start_le [of I "int r"] n by linarith
  then have w2: "wrap w (outp ! r + outp ! (r - 1)) = int (start I (int r))"
    unfolding a b using s by (simp add: wrap_id)
  have w3: "wrap w (int r + 1) = int (Suc r)"
    using r nr by (simp add: wrap_id)
  let ?outp = "outp[r := int (start I (int r))]"
  have rd_a: "rd outp (int r) = Some (outp ! r)"
    using r Suc.prems(1) by (intro rd_nat) simp
  have rd_b: "rd outp (wrap w (int r - 1)) = Some (outp ! (r - 1))"
    unfolding w1 using r Suc.prems(1) by (intro rd_nat) simp
  have wr_c: "wr outp (int r) (wrap w (outp ! r + outp ! (r - 1))) = Some ?outp"
    unfolding w2 using r Suc.prems(1) by (intro wr_nat) simp
  have cr: "int r \<le> int nr"
    using r by simp
  have step: "prefix_loop w (int nr) (int r) outp = prefix_loop w (int nr) (int (Suc r)) ?outp"
    by (subst prefix_loop.simps) (simp only: cr if_True rd_a rd_b wr_c w3 Option.bind.simps)
  have inv': "\<forall>k\<le>nr. ?outp ! k =
        (if k < Suc r then int (start I (int k)) else int (rowcnt I (int k - 1) (length I)))"
  proof (intro allI impI)
    fix k assume k: "k \<le> nr"
    show "?outp ! k =
        (if k < Suc r then int (start I (int k)) else int (rowcnt I (int k - 1) (length I)))"
      using Suc.prems(1,4) k r by (cases "k = r") auto
  qed
  have "\<exists>outp'. prefix_loop w (int nr) (int (Suc r)) ?outp = Some outp' \<and>
           length outp' = Suc nr \<and> (\<forall>k\<le>nr. outp' ! k = int (start I (int k)))"
    using Suc.hyps(2) Suc.prems(1) r inv'
    by (intro Suc.hyps(1)) simp_all
  then show ?case
    unfolding step .
qed

lemma shift_loop_correct:
  assumes len: "length outp = Suc nr" and nr: "int nr < max_index w"
    and r: "1 \<le> r" "r \<le> Suc nr"
    and off: "off = E ! (r - 1)"
    and inv: "\<forall>k\<le>nr. outp ! k = (if k = 0 then 0 else if k < r then E ! (k - 1) else E ! k)"
  shows "\<exists>outp'. shift_loop (int nr) (int r) off outp = Some outp' \<and>
           length outp' = Suc nr \<and> (\<forall>k\<le>nr. outp' ! k = (if k = 0 then 0 else E ! (k - 1)))"
  using len r off inv
proof (induction "Suc nr - r" arbitrary: r off outp)
  case 0
  then have "r = Suc nr" by simp
  moreover have "u64 (int nr) = int nr"
    using nr by (intro u64_id_max [of _ w]) simp_all
  ultimately show ?case using 0
    by (subst shift_loop.simps) (simp add: less_Suc_eq_le)
next
  case (Suc d)
  then have r: "r \<le> nr" "1 \<le> r" by simp_all
  have u1: "u64 (int nr) = int nr"
    using nr by (intro u64_id_max [of _ w]) simp_all
  have "u64 (int r + 1) = int r + 1"
    using r nr by (intro u64_id_max [of _ w]) simp_all
  then have u2: "u64 (int r + 1) = int (Suc r)" by simp
  have t: "outp ! r = E ! r"
    using Suc.prems(5) r by simp
  let ?outp = "outp[r := E ! (r - 1)]"
  have rd_t: "rd outp (int r) = Some (E ! r)"
    unfolding t [symmetric] using r Suc.prems(1) by (intro rd_nat) simp
  have wr_t: "wr outp (int r) off = Some ?outp"
    unfolding Suc.prems(4) using r Suc.prems(1) by (intro wr_nat) simp
  have cr: "int r \<le> int nr"
    using r by simp
  have step: "shift_loop (int nr) (int r) off outp = shift_loop (int nr) (int (Suc r)) (E ! r) ?outp"
    by (subst shift_loop.simps) (simp only: cr u1 if_True rd_t wr_t u2 Option.bind.simps)
  have inv': "\<forall>k\<le>nr. ?outp ! k = (if k = 0 then 0 else if k < Suc r then E ! (k - 1) else E ! k)"
  proof (intro allI impI)
    fix k assume k: "k \<le> nr"
    show "?outp ! k = (if k = 0 then 0 else if k < Suc r then E ! (k - 1) else E ! k)"
      using Suc.prems(1,5) k r by (cases "k = r") auto
  qed
  have "\<exists>outp'. shift_loop (int nr) (int (Suc r)) (E ! r) ?outp = Some outp' \<and>
           length outp' = Suc nr \<and> (\<forall>k\<le>nr. outp' ! k = (if k = 0 then 0 else E ! (k - 1)))"
    using Suc.hyps(2) Suc.prems(1) r inv'
    by (intro Suc.hyps(1)) simp_all
  then show ?case
    unfolding step .
qed

lemma in_col_unique:
  assumes "sorted P" "in_col P c e" "in_col P c' e" "Suc c < length P" "Suc c' < length P"
  shows "c = c'"
proof (rule ccontr)
  assume "c \<noteq> c'"
  then consider "Suc c \<le> c'" | "Suc c' \<le> c" by linarith
  then show False
  proof cases
    case 1
    then have "P ! Suc c \<le> P ! c'"
      using assms(1,5) by (intro sorted_nth_mono) simp_all
    with assms(2,3) show False by (simp add: in_col_def)
  next
    case 2
    then have "P ! Suc c' \<le> P ! c"
      using assms(1,4) by (intro sorted_nth_mono) simp_all
    with assms(2,3) show False by (simp add: in_col_def)
  qed
qed

lemma pos_bound:
  assumes "e < length I"
  shows "pos I e < start I (I ! e + 1)"
proof -
  have "rowcnt I (I ! e) e < rowcnt I (I ! e) (length I)"
    unfolding rowcnt_def using assms by (intro cnt_less) simp_all
  then show ?thesis
    by (simp add: pos_def start_Suc)
qed

lemma pos_less_length: "e < length I \<Longrightarrow> pos I e < length I"
  using pos_bound [of e I] start_le [of I "I ! e + 1"] by linarith

lemma pos_less_same: "e' < e \<Longrightarrow> I ! e' = I ! e \<Longrightarrow> pos I e' < pos I e"
  unfolding pos_def rowcnt_def by (simp add: cnt_less)

lemma pos_less_row:
  assumes "e' < length I" "I ! e' < I ! e"
  shows "pos I e' < pos I e"
proof -
  have "pos I e' < start I (I ! e' + 1)"
    using assms(1) by (rule pos_bound)
  also have "\<dots> \<le> start I (I ! e)"
    using assms(2) by (intro start_mono) simp
  also have "\<dots> \<le> pos I e"
    by (simp add: pos_def)
  finally show ?thesis .
qed

lemma pos_neq:
  assumes "e' < e" "e < length I"
  shows "pos I e' \<noteq> pos I e"
proof -
  consider "I ! e' = I ! e" | "I ! e' < I ! e" | "I ! e < I ! e'" by linarith
  then show ?thesis
  proof cases
    case 1
    then show ?thesis using pos_less_same [OF assms(1), of I] by simp
  next
    case 2
    then show ?thesis using pos_less_row [of e' I e] assms by simp
  next
    case 3
    then show ?thesis using pos_less_row [of e I e'] assms by simp
  qed
qed

lemma find_col_correct:
  assumes srt: "sorted P" and len: "length P = Suc nc" and p0: "P ! 0 = 0"
    and pn: "P ! nc = int n" and e: "e < n"
    and nc: "int nc \<le> max_index w" and n: "int n \<le> max_index w"
    and inv: "\<forall>c'<cid. P ! Suc c' \<le> int e"
  shows "\<exists>c. find_col w P (int e) (int cid) = Some (int c) \<and> in_col P c e \<and> cid \<le> c \<and> c < nc"
  using inv
proof (induction "nc - cid" arbitrary: cid)
  case 0
  then have ge: "nc \<le> cid" by simp
  have "nc \<noteq> 0" using p0 pn e by (cases "nc = 0") auto
  then have "nc - 1 < cid" using ge by simp
  then have "P ! Suc (nc - 1) \<le> int e" using 0(2) by blast
  then have False using \<open>nc \<noteq> 0\<close> pn e by simp
  then show ?case ..
next
  case (Suc d)
  then have cid: "cid < nc" by simp
  have w1: "wrap w (int cid + 1) = int (Suc cid)"
    using cid nc by (simp add: wrap_id)
  have b0: "0 \<le> P ! Suc cid"
    using sorted_nth_mono [OF srt, of 0 "Suc cid"] len cid p0 by simp
  have bn: "P ! Suc cid \<le> int n"
    using sorted_nth_mono [OF srt, of "Suc cid" nc] len cid pn by simp
  have u: "u64 (P ! Suc cid) = P ! Suc cid"
    using b0 bn n by (intro u64_id_max [of _ w]) simp_all
  have rd_b: "rd P (int (Suc cid)) = Some (P ! Suc cid)"
    using cid len by (intro rd_nat) simp
  show ?case
  proof (cases "P ! Suc cid \<le> int e")
    case True
    have step: "find_col w P (int e) (int cid) = find_col w P (int e) (int (Suc cid))"
      by (subst find_col.simps) (simp only: w1 rd_b Option.bind.simps u True if_True)
    have "\<forall>c'<Suc cid. P ! Suc c' \<le> int e"
      using Suc.prems True by (auto simp: less_Suc_eq)
    moreover have "d = nc - Suc cid" using Suc.hyps(2) by simp
    ultimately have "\<exists>c. find_col w P (int e) (int (Suc cid)) = Some (int c) \<and> in_col P c e \<and>
        Suc cid \<le> c \<and> c < nc"
      by (intro Suc.hyps(1))
    then show ?thesis
      unfolding step by auto
  next
    case False
    have res: "find_col w P (int e) (int cid) = Some (int cid)"
      by (subst find_col.simps) (simp only: w1 rd_b Option.bind.simps u False if_False)
    have "P ! cid \<le> int e"
    proof (cases cid)
      case 0
      then show ?thesis using p0 by simp
    next
      case (Suc c')
      then show ?thesis using Suc.prems by auto
    qed
    then have "in_col P cid e"
      using False by (simp add: in_col_def)
    then show ?thesis
      using res cid by auto
  qed
qed

lemma scatter_loop_correct:
  assumes srt: "sorted (slot_p M)" and lenp: "length (slot_p M) = Suc nc"
    and p0: "slot_p M ! 0 = 0"
    and pn: "slot_p M ! nc = int (length (slot_i M))"
    and lenx: "length (slot_x M) = length (slot_i M)"
    and rows: "\<forall>e<length (slot_i M). 0 \<le> slot_i M ! e \<and> slot_i M ! e < int nr"
    and n: "int (length (slot_i M)) \<le> max_index w" and nc: "int nc \<le> max_index w"
    and e: "e \<le> length (slot_i M)" and inv: "scatter_inv M nr nc e cid out"
  shows "\<exists>out' cid'. scatter_loop w M (int (length (slot_i M))) (int e) (int cid) out = Some out' \<and>
           scatter_inv M nr nc (length (slot_i M)) cid' out' \<and>
           Dim out' = Dim out \<and> Dimnames out' = Dimnames out"
  using e inv
proof (induction "length (slot_i M) - e" arbitrary: e cid out)
  case 0
  then have "e = length (slot_i M)" by simp
  moreover have "u64 (int (length (slot_i M))) = int (length (slot_i M))"
    using n by (intro u64_id_max [of _ w]) simp_all
  ultimately have "scatter_loop w M (int (length (slot_i M))) (int e) (int cid) out = Some out"
    by (subst scatter_loop.simps) simp
  then show ?case
    using 0(3) \<open>e = length (slot_i M)\<close> by auto
next
  case (Suc d)
  let ?I = "slot_i M" and ?P = "slot_p M" and ?X = "slot_x M"
  let ?n = "length ?I"
  from Suc have e: "e < ?n" by simp
  note inv = Suc.prems(2) [unfolded scatter_inv_def]
  define kr where "kr = nat (?I ! e)"
  have kr: "?I ! e = int kr" "kr < nr"
    using rows e by (auto simp: kr_def)
  from inv have cinv: "\<forall>c'<cid. ?P ! Suc c' \<le> int e" by blast
  from find_col_correct [OF srt lenp p0 pn e nc n cinv]
  obtain c where c: "find_col w ?P (int e) (int cid) = Some (int c)" "in_col ?P c e"
    "cid \<le> c" "c < nc"
    by blast
  define po where "po = pos ?I e"
  have po: "po < ?n"
    unfolding po_def using e by (rule pos_less_length)
  have cur: "slot_p out ! kr = int po"
    using inv kr by (simp add: po_def pos_def)
  have u1: "u64 (int ?n) = int ?n"
    using n by (intro u64_id_max [of _ w]) simp_all
  have "u64 (int e + 1) = int e + 1"
    using e n by (intro u64_id_max [of _ w]) simp_all
  then have u2: "u64 (int e + 1) = int (Suc e)" by simp
  have "wrap w (int po + 1) = int po + 1"
    using po n by (intro wrap_id) simp_all
  then have w2: "wrap w (int po + 1) = int (Suc po)" by simp
  have ce: "int e < int ?n" using e by simp
  have rd_i: "rd ?I (int e) = Some (int kr)"
    unfolding kr(1) [symmetric] using e by (intro rd_nat)
  have rd_x: "rd ?X (int e) = Some (?X ! e)"
    using e lenx by (intro rd_nat) simp
  have rd_p: "rd (slot_p out) (int kr) = Some (int po)"
    unfolding cur [symmetric] using kr inv by (intro rd_nat) simp
  have wr_x: "wr (slot_x out) (int po) (?X ! e) = Some ((slot_x out)[po := ?X ! e])"
    using po inv by (intro wr_nat) simp
  have wr_i: "wr (slot_i out) (int po) (int c) = Some ((slot_i out)[po := int c])"
    using po inv by (intro wr_nat) simp
  have wr_p: "wr (slot_p out) (int kr) (int (Suc po)) = Some ((slot_p out)[kr := int (Suc po)])"
    using kr inv by (intro wr_nat) simp
  let ?out = "out\<lparr>slot_x := (slot_x out)[po := ?X ! e], slot_i := (slot_i out)[po := int c],
                 slot_p := (slot_p out)[kr := int (Suc po)]\<rparr>"
  have step: "scatter_loop w M (int ?n) (int e) (int cid) out =
      scatter_loop w M (int ?n) (int (Suc e)) (int c) ?out"
    by (subst scatter_loop.simps)
      (simp only: u1 ce if_True rd_i rd_x c(1) rd_p wr_x wr_i w2 wr_p u2 Option.bind.simps)
  have inv': "scatter_inv M nr nc (Suc e) c ?out"
    unfolding scatter_inv_def
  proof (intro conjI allI impI)
    show "length (slot_p ?out) = Suc nr" using inv by simp
    show "length (slot_i ?out) = ?n" using inv by simp
    show "length (slot_x ?out) = ?n" using inv by simp
  next
    fix k assume k: "k < nr"
    show "slot_p ?out ! k = int (start ?I (int k) + rowcnt ?I (int k) (Suc e))"
    proof (cases "k = kr")
      case True
      then show ?thesis
        using inv kr by (simp add: rowcnt_Suc po_def pos_def)
    next
      case False
      then have "?I ! e \<noteq> int k" using kr by simp
      then show ?thesis
        using inv False k by (simp add: rowcnt_Suc)
    qed
  next
    fix e' assume e': "e' < Suc e"
    show "slot_x ?out ! pos ?I e' = ?X ! e'"
    proof (cases "e' = e")
      case True
      then show ?thesis using po inv by (simp add: po_def)
    next
      case False
      then have "e' < e" using e' by simp
      then have "pos ?I e' \<noteq> po"
        unfolding po_def using e by (intro pos_neq)
      then show ?thesis
        using inv \<open>e' < e\<close> by simp
    qed
  next
    fix e' c' assume e': "e' < Suc e" and c': "c' < nc" and ic: "in_col ?P c' e'"
    show "slot_i ?out ! pos ?I e' = int c'"
    proof (cases "e' = e")
      case True
      then have "c' = c"
        using in_col_unique [OF srt _ c(2), of c'] ic c' c(4) lenp by simp
      then show ?thesis using True po inv by (simp add: po_def)
    next
      case False
      then have "e' < e" using e' by simp
      then have "pos ?I e' \<noteq> po"
        unfolding po_def using e by (intro pos_neq)
      then show ?thesis
        using inv \<open>e' < e\<close> c' ic by simp
    qed
  next
    fix c' assume c': "c' < c"
    then have "?P ! Suc c' \<le> ?P ! c"
      using srt c(4) lenp by (intro sorted_nth_mono) simp_all
    then show "?P ! Suc c' \<le> int (Suc e)"
      using c(2) by (simp add: in_col_def)
  qed
  have "d = ?n - Suc e" using Suc.hyps(2) by simp
  moreover have "Suc e \<le> ?n" using e by simp
  ultimately have "\<exists>out' cid'. scatter_loop w M (int ?n) (int (Suc e)) (int c) ?out = Some out' \<and>
           scatter_inv M nr nc ?n cid' out' \<and> Dim out' = Dim ?out \<and> Dimnames out' = Dimnames ?out"
    using inv' by (intro Suc.hyps(1))
  then show ?case
    unfolding step by simp
qed

lemma csc_transpose_in_range:
  assumes wf: "csc_wf M" and fit: "in_range w M"
  shows "\<exists>T. csc_transpose w M = Some T \<and> transposed_of M T"
proof -
  let ?I = "slot_i M" and ?P = "slot_p M" and ?X = "slot_x M"
  let ?n = "length ?I"
  define nr where "nr = nat (nrows M)"
  define nc where "nc = nat (ncols M)"
  have nr: "nrows M = int nr" and nc: "ncols M = int nc"
    using wf by (simp_all add: csc_wf_def nr_def nc_def)
  have dim: "length (Dim M) = 2" and dn: "length (Dimnames M) = 2"
    and lenp: "length ?P = Suc nc" and p0: "?P ! 0 = 0" and srt: "sorted ?P"
    and lenx: "length ?X = ?n"
    using wf by (simp_all add: csc_wf_def nc_def)
  have "?P \<noteq> []" using lenp by auto
  then have "last ?P = ?P ! (length ?P - 1)" by (rule last_conv_nth)
  then have "last ?P = ?P ! nc" unfolding lenp by simp
  moreover have "last ?P = int ?n" using wf by (simp add: csc_wf_def)
  ultimately have pn: "?P ! nc = int ?n" by simp
  have rows: "\<forall>e<?n. 0 \<le> ?I ! e \<and> ?I ! e < int nr"
    using wf nr by (simp add: csc_wf_def)
  have bn: "int ?n \<le> max_index w" and bnr: "int nr < max_index w" and bnc: "int nc \<le> max_index w"
    using fit nr nc by (simp_all add: in_range_def)
  have rd_d0: "rd (Dim M) 0 = Some (int nr)" and rd_d1: "rd (Dim M) 1 = Some (int nc)"
    using dim nr nc by (simp_all add: rd_def nrows_def ncols_def)
  have rd_pn: "rd ?P (int nc) = Some (int ?n)"
    unfolding pn [symmetric] using lenp by (intro rd_nat) simp
  have rd_n0: "rd (Dimnames M) 0 = Some (Dimnames M ! 0)"
    and rd_n1: "rd (Dimnames M) 1 = Some (Dimnames M ! Suc 0)"
    using dn by (simp_all add: rd_def)
  have wr_n: "wr [Null, Null] 0 (Dimnames M ! Suc 0) = Some [Dimnames M ! Suc 0, Null]"
    "wr [Dimnames M ! Suc 0, Null] 1 (Dimnames M ! 0) = Some [Dimnames M ! Suc 0, Dimnames M ! 0]"
    by (simp_all add: wr_def)
  from zero_loop_correct [of "replicate (Suc nr) 0" nr w 0] bnr
  obtain Z where Z: "zero_loop w (int nr) 0 (replicate (Suc nr) 0) = Some Z"
    "length Z = Suc nr" "\<forall>k\<le>nr. Z ! k = 0"
    by auto
  have "\<forall>k\<le>nr. Z ! k = (if k = 0 then 0 else int (rowcnt ?I (int k - 1) 0))"
    using Z(3) by (simp add: rowcnt_def)
  from count_loop_correct [OF Z(2) bn bnr rows _ this]
  obtain C where C: "count_loop w ?I (int ?n) 0 Z = Some C" "length C = Suc nr"
    "\<forall>k\<le>nr. C ! k = (if k = 0 then 0 else int (rowcnt ?I (int k - 1) ?n))"
    by auto
  have s0: "start ?I 0 = 0"
    using rows by (intro start_0) simp
  have "\<forall>k\<le>nr. C ! k = (if k < 1 then int (start ?I (int k)) else int (rowcnt ?I (int k - 1) ?n))"
    using C(3) s0 by auto
  from prefix_loop_correct [OF C(2) bn bnr _ _ this]
  obtain F where F: "prefix_loop w (int nr) 1 C = Some F" "length F = Suc nr"
    "\<forall>k\<le>nr. F ! k = int (start ?I (int k))"
    by auto
  let ?out = "\<lparr>slot_i = replicate ?n 0, slot_p = F, slot_x = replicate ?n 0, Dim = [int nc, int nr],
      Dimnames = [Dimnames M ! Suc 0, Dimnames M ! 0]\<rparr>"
  have "scatter_inv M nr nc 0 0 ?out"
    using F by (simp add: scatter_inv_def rowcnt_def)
  from scatter_loop_correct [OF srt lenp p0 pn lenx rows bn bnc _ this]
  obtain E cid where E: "scatter_loop w M (int ?n) 0 0 ?out = Some E"
    "scatter_inv M nr nc ?n cid E" "Dim E = [int nc, int nr]"
    "Dimnames E = [Dimnames M ! Suc 0, Dimnames M ! 0]"
    by auto
  note einv = E(2) [unfolded scatter_inv_def]
  have rd_e: "rd (slot_p E) 0 = Some (slot_p E ! 0)"
    using einv by (simp add: rd_def)
  have wr_e: "wr (slot_p E) 0 0 = Some ((slot_p E)[0 := 0])"
    using einv by (simp add: wr_def)
  have "\<forall>k\<le>nr. (slot_p E)[0 := 0] ! k =
      (if k = 0 then 0 else if k < 1 then slot_p E ! (k - 1) else slot_p E ! k)"
    using einv by auto
  from shift_loop_correct [of "(slot_p E)[0 := 0]" nr w 1 "slot_p E ! 0" "slot_p E", OF _ bnr _ _ _ this]
  obtain S where S: "shift_loop (int nr) 1 (slot_p E ! 0) ((slot_p E)[0 := 0]) = Some S"
    "length S = Suc nr" "\<forall>k\<le>nr. S ! k = (if k = 0 then 0 else slot_p E ! (k - 1))"
    using einv by auto
  have nn: "nat (int nr + 1) = Suc nr" by simp
  have run: "csc_transpose w M = Some (E\<lparr>slot_p := S\<rparr>)"
    by (simp add: nn csc_transpose_def rd_d0 rd_d1 rd_pn rd_n0 rd_n1 wr_n new_csc_def Z C F E rd_e wr_e S del: replicate_Suc)
  have sp: "\<forall>r\<le>nr. S ! r = int (start ?I (int r))"
  proof (intro allI impI)
    fix r assume r: "r \<le> nr"
    show "S ! r = int (start ?I (int r))"
    proof (cases r)
      case 0
      then show ?thesis using S(3) r s0 by simp
    next
      case (Suc r')
      then have "S ! r = slot_p E ! r'" using S(3) r by simp
      also have "\<dots> = int (start ?I (int r') + rowcnt ?I (int r') ?n)"
        using einv Suc r by simp
      also have "\<dots> = int (start ?I (int r' + 1))"
        by (simp add: start_Suc)
      finally show ?thesis using Suc by (simp add: add.commute)
    qed
  qed
  have "transposed_of M (E\<lparr>slot_p := S\<rparr>)"
    unfolding transposed_of_def using E(3,4) S(2) sp einv nr nc
    by (simp add: nr_def [symmetric] nc_def [symmetric])
  with run show ?thesis by blast
qed



lemma canonical_M_spec: "canonical M_spec"
  by code_simp

lemma canonical_M_gap: "canonical M_gap"
  by code_simp

lemma canonical_M_empty: "canonical M_empty"
  by code_simp

lemma entries_M_gap: "entries M_gap = [(0, 0, 1), (0, 2, 2)]"
  by code_simp

section \<open>Densify: labels\<close>

lemma dense_set_dimnames: "dense_set D r c v = Some D' \<Longrightarrow> d_dimnames D' = d_dimnames D"
  by (auto simp: dense_set_def split: bind_splits)

lemma to_dense_loop_dimnames:
  "to_dense_loop M nelem e c c_end D = Some D' \<Longrightarrow> d_dimnames D' = d_dimnames D"
proof (induction rule: to_dense_loop.raw_induct[rotated 1, consumes 1, case_names step])
  case (step loop M nelem e c c_end D D')
  then show ?case
    by (auto split: if_splits bind_splits dest!: dense_set_dimnames)
qed

lemma to_dense_transposed_loop_dimnames:
  "to_dense_transposed_loop M nelem e c c_end D = Some D' \<Longrightarrow> d_dimnames D' = d_dimnames D"
proof (induction rule: to_dense_transposed_loop.raw_induct[rotated 1, consumes 1, case_names step])
  case (step loop M nelem e c c_end D D')
  then show ?case
    by (auto split: if_splits bind_splits dest!: dense_set_dimnames)
qed

text \<open>
  C10. Whenever one of the four densify functions returns a dense matrix, that matrix
  carries no \<open>dimnames\<close>: none of them attaches row or column labels.
\<close>

theorem densify_no_labels:
  "(sp_to_dense M = Some D \<longrightarrow> d_dimnames D = None) \<and>
   (spamx_to_dense M = Some D \<longrightarrow> d_dimnames D = None) \<and>
   (sp_to_dense_transposed M = Some D \<longrightarrow> d_dimnames D = None) \<and>
   (spamx_to_dense_transposed M = Some D \<longrightarrow> d_dimnames D = None)"
  by (auto simp: sp_to_dense_def spamx_to_dense_def sp_to_dense_transposed_def
        spamx_to_dense_transposed_def new_dense_def split: bind_splits
        dest!: to_dense_loop_dimnames to_dense_transposed_loop_dimnames)

theorem densify_no_labels_witness:
  "sp_to_dense M_spec =
     Some \<lparr>d_nrow = 3, d_ncol = 2, d_data = [1, 0, 2, 0, 3, 0], d_dimnames = None\<rparr> \<and>
   d_dimnames \<lparr>d_nrow = 3, d_ncol = 2, d_data = [1, 0, 2, 0, 3, 0], d_dimnames = None\<rparr> = None"
proof -
  have run: "sp_to_dense M_spec =
      Some \<lparr>d_nrow = 3, d_ncol = 2, d_data = [1, 0, 2, 0, 3, 0], d_dimnames = None\<rparr>"
    by code_simp
  from densify_no_labels [of M_spec "\<lparr>d_nrow = 3, d_ncol = 2, d_data = [1, 0, 2, 0, 3, 0], d_dimnames = None\<rparr>"] run
  show ?thesis by blast
qed

section \<open>Densify: column tracking\<close>

text \<open>
  C3. On the canonical matrix \<open>M_gap\<close> the entry (0, 2, 2) is written to cell (0, 1):
  the column counter advances by one at a boundary and so stops at the empty column.
\<close>

theorem sp_to_dense_gap:
  "sp_to_dense M_gap = Some \<lparr>d_nrow = 1, d_ncol = 3, d_data = [1, 2, 0], d_dimnames = None\<rparr>"
  by code_simp

text \<open>
  C4. On \<open>M_gap\<close> the fused function and the composition of transpose and densify
  return different buffers.
\<close>

theorem sp_to_dense_transposed_gap:
  "sp_to_dense_transposed M_gap =
     Some \<lparr>d_nrow = 3, d_ncol = 1, d_data = [1, 2, 0], d_dimnames = None\<rparr> \<and>
   Option.bind (sp_transpose M_gap) sp_to_dense =
     Some \<lparr>d_nrow = 3, d_ncol = 1, d_data = [1, 0, 2], d_dimnames = None\<rparr>"
  by code_simp

text \<open>
  C5. On the empty matrix with no column, each densify function reads \<open>p[1]\<close> of an
  offset vector of length one and has no result.
\<close>

theorem densify_empty_out_of_bounds:
  "rd (slot_p M_empty) 1 = None \<and>
   sp_to_dense M_empty = None \<and> spamx_to_dense M_empty = None \<and>
   sp_to_dense_transposed M_empty = None \<and> spamx_to_dense_transposed M_empty = None"
  by code_simp

section \<open>Shape and labels of the transpose\<close>

lemma transpose_M_spec: "sp_transpose M_spec = Some T_spec"
  by code_simp



lemma wf_nnz:
  assumes "csc_wf M"
  shows "nnz M = int (length (slot_i M))"
proof -
  have len: "length (slot_p M) = Suc (nat (ncols M))"
    using assms by (simp add: csc_wf_def)
  then have "slot_p M \<noteq> []" by auto
  then have "last (slot_p M) = slot_p M ! (length (slot_p M) - 1)" by (rule last_conv_nth)
  then have "last (slot_p M) = slot_p M ! nat (ncols M)" unfolding len by simp
  moreover have "last (slot_p M) = int (length (slot_i M))" using assms by (simp add: csc_wf_def)
  ultimately show ?thesis by (simp add: nnz_def)
qed








section \<open>The placement is a permutation; the two index widths agree\<close>

lemma col_exists: "P ! 0 \<le> int e \<Longrightarrow> int e < P ! m \<Longrightarrow> \<exists>c<m. in_col P c e"
proof (induction m)
  case 0
  then show ?case by simp
next
  case (Suc m)
  show ?case
  proof (cases "int e < P ! m")
    case True
    with Suc obtain c where "c < m" "in_col P c e" by blast
    then show ?thesis using less_Suc_eq by blast
  next
    case False
    then have "in_col P m e" using Suc.prems(2) by (simp add: in_col_def)
    then show ?thesis by blast
  qed
qed

lemma pos_inj: "inj_on (pos I) {..<length I}"
proof (rule inj_onI)
  fix a b assume a: "a \<in> {..<length I}" and b: "b \<in> {..<length I}" and eq: "pos I a = pos I b"
  show "a = b"
  proof (rule ccontr)
    assume "a \<noteq> b"
    then consider "a < b" | "b < a" by linarith
    then show False
    proof cases
      case 1
      then show False using pos_neq [of a b I] b eq by simp
    next
      case 2
      then show False using pos_neq [of b a I] a eq by simp
    qed
  qed
qed

lemma pos_image: "pos I ` {..<length I} = {..<length I}"
proof (rule endo_inj_surj)
  show "finite {..<length I}" by simp
  show "pos I ` {..<length I} \<subseteq> {..<length I}"
    using pos_less_length by auto
  show "inj_on (pos I) {..<length I}" by (rule pos_inj)
qed

lemma pos_surj:
  assumes "k < length I"
  shows "\<exists>e<length I. pos I e = k"
proof -
  have "k \<in> pos I ` {..<length I}"
    using assms by (simp add: pos_image)
  then show ?thesis by auto
qed

lemma wf_col_exists:
  assumes wf: "csc_wf M" and e: "e < length (slot_i M)"
  shows "\<exists>c<nat (ncols M). in_col (slot_p M) c e"
proof -
  have "slot_p M ! nat (ncols M) = int (length (slot_i M))"
    using wf_nnz [OF wf] by (simp add: nnz_def)
  then have "int e < slot_p M ! nat (ncols M)" using e by simp
  moreover have "slot_p M ! 0 \<le> int e" using wf by (simp add: csc_wf_def)
  ultimately show ?thesis by (intro col_exists)
qed

lemma transposed_of_unique:
  assumes wf: "csc_wf M" and T: "transposed_of M T" and U: "transposed_of M U"
  shows "T = U"
proof -
  note t = T [unfolded transposed_of_def] and u = U [unfolded transposed_of_def]
  have p: "slot_p T = slot_p U"
  proof (rule nth_equalityI)
    show "length (slot_p T) = length (slot_p U)" using t u by simp
    fix r assume "r < length (slot_p T)"
    then have "r \<le> nat (nrows M)" using t by simp
    then show "slot_p T ! r = slot_p U ! r" using t u by simp
  qed
  have x: "slot_x T = slot_x U"
  proof (rule nth_equalityI)
    show "length (slot_x T) = length (slot_x U)" using t u by simp
    fix k assume "k < length (slot_x T)"
    then have "k < length (slot_i M)" using t by simp
    then obtain e where "e < length (slot_i M)" "pos (slot_i M) e = k"
      using pos_surj by blast
    then show "slot_x T ! k = slot_x U ! k" using t u by auto
  qed
  have i: "slot_i T = slot_i U"
  proof (rule nth_equalityI)
    show "length (slot_i T) = length (slot_i U)" using t u by simp
    fix k assume "k < length (slot_i T)"
    then have "k < length (slot_i M)" using t by simp
    then obtain e where e: "e < length (slot_i M)" "pos (slot_i M) e = k"
      using pos_surj by blast
    from wf_col_exists [OF wf e(1)]
    obtain c where "c < nat (ncols M)" "in_col (slot_p M) c e" by blast
    then have "slot_i T ! k = int c" "slot_i U ! k = int c"
      using t u e by auto
    then show "slot_i T ! k = slot_i U ! k" by simp
  qed
  show ?thesis
    using p x i t u by (intro csc.equality) simp_all
qed

lemma in_range_Narrow_Wide: "in_range Narrow M \<Longrightarrow> in_range Wide M"
  by (simp add: in_range_def)

lemma in_range_M_spec: "in_range Narrow M_spec"
  by code_simp

text \<open>
  C9, as amended. On every canonical matrix whose number of columns and of stored entries
  are 32-bit counts and whose number of rows is below the largest 32-bit count,
  \<open>sp_transpose\<close> and \<open>spamx_transpose\<close> both return, and return the same matrix (offsets,
  row indices, values, dimensions and label handles); \<open>sp_to_dense\<close> agrees with
  \<open>spamx_to_dense\<close> and \<open>sp_to_dense_transposed\<close> with \<open>spamx_to_dense_transposed\<close>.
\<close>

theorem narrow_wide_agree:
  assumes "canonical M" and "in_range Narrow M"
  shows "(\<exists>T. sp_transpose M = Some T \<and> spamx_transpose M = Some T) \<and>
         sp_to_dense M = spamx_to_dense M \<and>
         sp_to_dense_transposed M = spamx_to_dense_transposed M"
proof -
  have wf: "csc_wf M" using assms(1) by (simp add: canonical_def)
  from csc_transpose_in_range [OF wf assms(2)]
  obtain T where T: "csc_transpose Narrow M = Some T" "transposed_of M T" by blast
  from csc_transpose_in_range [OF wf in_range_Narrow_Wide [OF assms(2)]]
  obtain U where U: "csc_transpose Wide M = Some U" "transposed_of M U" by blast
  have "T = U" using wf T(2) U(2) by (rule transposed_of_unique)
  then have "\<exists>T. sp_transpose M = Some T \<and> spamx_transpose M = Some T"
    using T(1) U(1) by (simp add: sp_transpose_def spamx_transpose_def)
  moreover have "sp_to_dense M = spamx_to_dense M"
    by (simp add: sp_to_dense_def spamx_to_dense_def)
  moreover have "sp_to_dense_transposed M = spamx_to_dense_transposed M"
    by (simp add: sp_to_dense_transposed_def spamx_to_dense_transposed_def)
  ultimately show ?thesis by blast
qed

lemma spamx_transpose_M_spec: "spamx_transpose M_spec = Some T_spec"
  by code_simp

theorem narrow_wide_agree_witness:
  "canonical M_spec \<and> in_range Narrow M_spec \<and>
   sp_transpose M_spec = Some T_spec \<and> spamx_transpose M_spec = Some T_spec \<and>
   sp_to_dense M_spec = spamx_to_dense M_spec \<and>
   sp_to_dense_transposed M_spec = spamx_to_dense_transposed M_spec"
  using narrow_wide_agree [OF canonical_M_spec in_range_M_spec] canonical_M_spec in_range_M_spec
    transpose_M_spec spamx_transpose_M_spec
  by simp

subsection \<open>The largest number of rows\<close>

text \<open>
  With \<open>nrow = INT_MAX\<close> the narrow loop \<open>for (int r = 0; r <= nrow; ++r) out.p[r] = 0;\<close>
  has a test that no \<open>int\<close> fails: after the last offset the counter wraps and the next
  write is out of range.
\<close>

lemma zero_loop_overflow:
  assumes len: "length outp = Suc nr" and top: "int nr = 2147483647" and r: "r \<le> nr"
  shows "zero_loop Narrow (int nr) (int r) outp = None"
  using len r
proof (induction "nr - r" arbitrary: r outp)
  case 0
  then have r: "r = nr" by simp
  have c1: "int nr \<le> int nr" by simp
  have wr1: "wr outp (int nr) 0 = Some (outp[nr := 0])"
    using 0(2) by (intro wr_nat) simp
  have w: "wrap Narrow (int nr + 1) = - 2147483648"
    unfolding top by (simp add: s32_def)
  have c2: "- 2147483648 \<le> int nr" by simp
  have wr2: "wr (outp[nr := 0]) (- 2147483648) (0::int) = None"
    by (simp add: wr_def)
  have "zero_loop Narrow (int nr) (int nr) outp =
      zero_loop Narrow (int nr) (- 2147483648) (outp[nr := 0])"
    by (subst zero_loop.simps) (simp only: c1 if_True wr1 w Option.bind.simps)
  also have "\<dots> = None"
    by (subst zero_loop.simps) (simp only: c2 if_True wr2 Option.bind.simps)
  finally show ?case unfolding r .
next
  case (Suc d)
  then have r: "r < nr" by simp
  have c1: "int r \<le> int nr" using r by simp
  have wr1: "wr outp (int r) 0 = Some (outp[r := 0])"
    using r Suc.prems(1) by (intro wr_nat) simp
  have "wrap Narrow (int r + 1) = int r + 1"
    using r top by (intro wrap_id) simp_all
  then have w: "wrap Narrow (int r + 1) = int (Suc r)" by simp
  have step: "zero_loop Narrow (int nr) (int r) outp =
      zero_loop Narrow (int nr) (int (Suc r)) (outp[r := 0])"
    by (subst zero_loop.simps) (simp only: c1 if_True wr1 w Option.bind.simps)
  have "zero_loop Narrow (int nr) (int (Suc r)) (outp[r := 0]) = None"
    using Suc.hyps(2) Suc.prems(1) r by (intro Suc.hyps(1)) simp_all
  then show ?case unfolding step .
qed

lemma csc_wf_M_big: "csc_wf M_big"
  by (simp add: csc_wf_def M_big_def nrows_def ncols_def)

lemma canonical_M_big: "canonical M_big"
  using csc_wf_M_big by (simp add: canonical_def M_big_def ncols_def)

lemma zero_loop_M_big: "zero_loop Narrow 2147483647 0 (replicate 2147483648 0) = None"
  using zero_loop_overflow [of "replicate 2147483648 0" 2147483647 0] by simp

lemma sp_transpose_M_big: "sp_transpose M_big = None"
  by (simp add: sp_transpose_def csc_transpose_def M_big_def rd_def wr_def new_csc_def
      zero_loop_M_big)

lemma in_range_Wide_M_big: "in_range Wide M_big"
  by (simp add: in_range_def M_big_def nrows_def ncols_def)

lemma spamx_transpose_M_big: "spamx_transpose M_big = Some T_big"
proof -
  from csc_transpose_in_range [OF csc_wf_M_big in_range_Wide_M_big]
  obtain T where run: "csc_transpose Wide M_big = Some T" and T: "transposed_of M_big T"
    by blast
  note t = T [unfolded transposed_of_def]
  have p: "slot_p T = replicate 2147483648 0"
  proof (rule nth_equalityI)
    show "length (slot_p T) = length (replicate 2147483648 (0::int))"
      using t by (simp add: M_big_def nrows_def)
    fix r assume "r < length (slot_p T)"
    then have r: "r \<le> nat (nrows M_big)" "r < 2147483648"
      using t by (simp_all add: M_big_def nrows_def)
    then have "slot_p T ! r = int (start (slot_i M_big) (int r))" using t by simp
    also have "\<dots> = 0" by (simp add: start_def M_big_def)
    finally show "slot_p T ! r = replicate 2147483648 0 ! r" using r(2) by simp
  qed
  have "T = T_big"
    using p t by (intro csc.equality) (simp_all add: T_big_def M_big_def nrows_def ncols_def)
  with run show ?thesis by (simp add: spamx_transpose_def)
qed

text \<open>
  C9, as stated, fails: \<open>M_big\<close> is canonical and all its dimensions, offsets and counts fit
  a 32-bit count, yet \<open>sp_transpose\<close> has no result on it while \<open>spamx_transpose\<close> returns
  its transpose.
\<close>

theorem narrow_wide_differ_at_INT_MAX:
  "canonical M_big \<and> nrows M_big = 2 ^ 31 - 1 \<and> ncols M_big = 0 \<and> nnz M_big = 0 \<and>
   sp_transpose M_big = None \<and> spamx_transpose M_big = Some T_big"
proof -
  have "nrows M_big = 2 ^ 31 - 1" "ncols M_big = 0" "nnz M_big = 0"
    by (simp_all add: M_big_def nrows_def ncols_def nnz_def)
  with canonical_M_big sp_transpose_M_big spamx_transpose_M_big
  show ?thesis by (intro conjI)
qed

section \<open>The entries of the transpose\<close>










lemma entries_M_spec: "entries M_spec = [(0, 0, 1), (2, 0, 2), (1, 1, 3)]"
  by code_simp

lemma entries_T_spec: "entries T_spec = [(0, 0, 1), (1, 1, 3), (0, 2, 2)]"
  by code_simp


section \<open>The transpose is canonical\<close>








lemma canonical_T_spec: "canonical T_spec"
  by code_simp



section \<open>Transposing twice\<close>












end
